theory Spec2Isabelle
  imports Complex_Main "HOL-Library.AList" "HOL-Library.Finite_Map" "HOL-Library.Multiset"
begin

section \<open>Lab 2: text retrieval with BM25\<close>

text \<open>
  A shallow embedding of \<^verbatim>\<open>lab_2_retrieval_w_bm25/main.py\<close>.

  Conventions of the embedding.
  \<^item> The \<^verbatim>\<open>isinstance\<close> checks of the source are discharged by HOL's types: a
    \<^verbatim>\<open>list[str]\<close> is a \<open>string list\<close>, a \<^verbatim>\<open>float\<close> is a \<open>real\<close>
    (exact arithmetic, no rounding, no NaN and no infinities; the persistence functions,
    whose subject is the equality of floats, have a float type with the special values),
    an \<^verbatim>\<open>int\<close> is an \<open>int\<close>. A divisor is tested for zero as a real number: a
    divisor that is not zero but rounds to the double \<^verbatim>\<open>0.0\<close> is outside the embedding,
    and the statements below about computed scores are statements in exact arithmetic.
    The checks on values (emptiness, \<^verbatim>\<open>isalpha\<close>, \<^verbatim>\<open>doc_len < 0\<close>)
    are branches of the model.
  \<^item> Returning \<^verbatim>\<open>None\<close> is the value \<open>None\<close> of an option type. An exception that
    escapes the function is \<open>Inl\<close> of a sum type; a normal return is \<open>Inr\<close>.
  \<^item> A dictionary that the source builds, iterates or measures is an association list in
    insertion order (looked up with \<open>map_of\<close>, assigned with \<open>AList.update\<close>); a
    dictionary that is only compared and looked up is a finite map.
  \<^item> Characters are ASCII: \<^verbatim>\<open>str.isalpha\<close>, \<^verbatim>\<open>str.lower\<close> and the white space
    of \<^verbatim>\<open>str.split\<close> are modelled on the code points below 128.
  \<^item> The file system is a state passed through \<^verbatim>\<open>save_index\<close> and \<^verbatim>\<open>load_index\<close>;
    a file holds a JSON document, which \<^verbatim>\<open>json.dump\<close> writes and \<^verbatim>\<open>json.load\<close>
    reads.
  \<^item> \<^verbatim>\<open>build_vocabulary\<close> is not used by the properties proved here and is not
    embedded.
\<close>

subsection \<open>Exceptions and the partial primitives of Python\<close>

datatype error = ZeroDivisionError | ValueError | KeyError | OverflowError | OSError

text \<open>\<^verbatim>\<open>x / y\<close>: true division raises on a zero divisor.\<close>

definition py_div :: "real \<Rightarrow> real \<Rightarrow> error + real" where
  "py_div x y = (if y = 0 then Inl ZeroDivisionError else Inr (x / y))"

text \<open>
  The conversion of an \<^verbatim>\<open>int\<close> operand of float arithmetic: an integer of absolute
  value \<^verbatim>\<open>2**1024 - 2**970\<close> or more rounds beyond the largest double and raises
  \<^verbatim>\<open>OverflowError\<close> (int too large to convert to float).
\<close>

definition int_to_float :: "int \<Rightarrow> error + real" where
  "int_to_float i =
     (if \<bar>i\<bar> \<ge> 2 ^ 1024 - 2 ^ 970 then Inl OverflowError else Inr (real_of_int i))"

text \<open>\<^verbatim>\<open>math.log(x)\<close>: a math domain error unless \<open>x\<close> is positive.\<close>

definition py_log :: "real \<Rightarrow> error + real" where
  "py_log x = (if x \<le> 0 then Inl ValueError else Inr (ln x))"

text \<open>\<^verbatim>\<open>d[k]\<close> on a dictionary.\<close>

definition py_getitem :: "('k \<times> 'v) list \<Rightarrow> 'k \<Rightarrow> error + 'v" where
  "py_getitem d k = (case map_of d k of None \<Rightarrow> Inl KeyError | Some v \<Rightarrow> Inr v)"

text \<open>\<^verbatim>\<open>xs.index(y)\<close>: the first position holding a value equal to \<open>y\<close>.\<close>

fun list_index :: "'a list \<Rightarrow> 'a \<Rightarrow> error + nat" where
  "list_index [] y = Inl ValueError"
| "list_index (x # xs) y =
     (if x = y then Inr 0
      else case list_index xs y of Inl e \<Rightarrow> Inl e | Inr i \<Rightarrow> Inr (Suc i))"

text \<open>
  A comprehension whose element expression may raise: the elements are evaluated in
  order and the first exception escapes.
\<close>

fun traverse :: "('a \<Rightarrow> error + 'b) \<Rightarrow> 'a list \<Rightarrow> error + 'b list" where
  "traverse f [] = Inr []"
| "traverse f (x # xs) =
     (case f x of
        Inl e \<Rightarrow> Inl e
      | Inr y \<Rightarrow> (case traverse f xs of Inl e \<Rightarrow> Inl e | Inr ys \<Rightarrow> Inr (y # ys)))"

text \<open>
  \<^verbatim>\<open>set(vocab) | set(document)\<close>, enumerated. Python fixes no order for the elements of
  a set; the model lists them in order of first occurrence, and the theorems below use
  only that the enumeration is duplicate-free and has the right elements.
\<close>

definition token_union :: "string list \<Rightarrow> string list \<Rightarrow> string list" where
  "token_union vocab document = remdups (vocab @ document)"

subsection \<open>Strings\<close>

definition isalpha :: "char \<Rightarrow> bool" where
  "isalpha c = (let n = (of_char c :: nat) in (65 \<le> n \<and> n \<le> 90) \<or> (97 \<le> n \<and> n \<le> 122))"

definition isspace :: "char \<Rightarrow> bool" where
  "isspace c = (let n = (of_char c :: nat) in (9 \<le> n \<and> n \<le> 13) \<or> (28 \<le> n \<and> n \<le> 32))"

definition lower_char :: "char \<Rightarrow> char" where
  "lower_char c = (let n = (of_char c :: nat) in if 65 \<le> n \<and> n \<le> 90 then char_of (n + 32) else c)"

text \<open>\<^verbatim>\<open>s.lower()\<close>\<close>

definition lower :: "string \<Rightarrow> string" where
  "lower s = map lower_char s"

text \<open>\<^verbatim>\<open>s.isalpha()\<close>: false on the empty string.\<close>

definition str_isalpha :: "string \<Rightarrow> bool" where
  "str_isalpha s = (s \<noteq> [] \<and> list_all isalpha s)"

text \<open>\<^verbatim>\<open>s.replace(old, new)\<close> for one-character arguments.\<close>

definition str_replace :: "char \<Rightarrow> char \<Rightarrow> string \<Rightarrow> string" where
  "str_replace old new s = map (\<lambda>c. if c = old then new else c) s"

text \<open>
  \<^verbatim>\<open>s.split()\<close>: the maximal runs of characters that are not white space. The first
  argument is the word read so far.
\<close>

fun split_from :: "string \<Rightarrow> string \<Rightarrow> string list" where
  "split_from w [] = (if w = [] then [] else [w])"
| "split_from w (c # cs) =
     (if isspace c then (if w = [] then split_from [] cs else w # split_from [] cs)
      else split_from (w @ [c]) cs)"

definition str_split :: "string \<Rightarrow> string list" where
  "str_split s = split_from [] s"

subsection \<open>tokenize\<close>

text \<open>
  The loop runs over the characters of the original text while \<^verbatim>\<open>text\<close> is rebound to
  the string with every occurrence of the current symbol replaced.
\<close>

fun tokenize_loop :: "string \<Rightarrow> string \<Rightarrow> string" where
  "tokenize_loop [] text = text"
| "tokenize_loop (symbol # rest) text =
     (if isalpha symbol \<or> symbol = CHR '' '' then tokenize_loop rest text
      else tokenize_loop rest (str_replace symbol (CHR '' '') text))"

definition tokenize :: "string \<Rightarrow> string list option" where
  "tokenize text =
     (if length text < 1 then None
      else Some (str_split (lower (tokenize_loop text text))))"

subsection \<open>remove_stopwords\<close>

definition remove_stopwords :: "string list \<Rightarrow> string list \<Rightarrow> string list option" where
  "remove_stopwords tokens stopwords =
     (if length tokens = 0 \<or> length stopwords = 0 then None
      else Some (filter (\<lambda>x. x \<notin> set stopwords) tokens))"

subsection \<open>calculate_tf\<close>

definition calculate_tf ::
  "string list \<Rightarrow> string list \<Rightarrow> error + (string \<times> real) list option" where
  "calculate_tf vocab document_tokens =
     (if length vocab = 0 \<or> length document_tokens = 0 then Inr None
      else
        let len_document = length document_tokens;
            token_set = token_union vocab document_tokens
        in map_sum id Some
             (traverse
                (\<lambda>token. map_sum id (Pair token)
                   (py_div (real (count_list document_tokens token)) (real len_document)))
                token_set))"

subsection \<open>calculate_idf\<close>

definition idf_score :: "string \<Rightarrow> string list list \<Rightarrow> error + real" where
  "idf_score token documents =
     (let token_count = length (filter (\<lambda>document. token \<in> set document) documents) in
      case py_div (real_of_int (int (length documents) - int token_count) + 0.5)
                  (real token_count + 0.5) of
        Inl e \<Rightarrow> Inl e
      | Inr q \<Rightarrow> py_log q)"

fun idf_loop ::
  "string list \<Rightarrow> string list list \<Rightarrow> (string \<times> real) list \<Rightarrow> error + (string \<times> real) list" where
  "idf_loop [] documents idf_dict = Inr idf_dict"
| "idf_loop (token # rest) documents idf_dict =
     (case idf_score token documents of
        Inl e \<Rightarrow> Inl e
      | Inr idf \<Rightarrow> idf_loop rest documents (AList.update token idf idf_dict))"

definition calculate_idf ::
  "string list \<Rightarrow> string list list \<Rightarrow> error + (string \<times> real) list option" where
  "calculate_idf vocab documents =
     (if length vocab = 0 \<or> length documents = 0 then Inr None
      else if \<not> list_all str_isalpha vocab then Inr None
      else if \<not> list_all (list_all str_isalpha) documents then Inr None
      else map_sum id Some (idf_loop vocab documents []))"

subsection \<open>calculate_tf_idf\<close>

text \<open>
  The comprehension runs over the keys of \<^verbatim>\<open>tf\<close> that are keys of \<^verbatim>\<open>idf\<close>;
  \<^verbatim>\<open>{...} or None\<close> turns the empty dictionary into \<^verbatim>\<open>None\<close>.
\<close>

definition calculate_tf_idf ::
  "(string \<times> real) list \<Rightarrow> (string \<times> real) list \<Rightarrow> error + (string \<times> real) list option" where
  "calculate_tf_idf tf idf =
     (case traverse
             (\<lambda>token.
                case py_getitem tf token of
                  Inl e \<Rightarrow> Inl e
                | Inr t \<Rightarrow> (case py_getitem idf token of
                              Inl e \<Rightarrow> Inl e
                            | Inr i \<Rightarrow> Inr (token, t * i)))
             (filter (\<lambda>token. map_of idf token \<noteq> None) (map fst tf)) of
        Inl e \<Rightarrow> Inl e
      | Inr tf_idf \<Rightarrow> if tf_idf = [] then Inr None else Inr (Some tf_idf))"

subsection \<open>calculate_bm25\<close>

text \<open>
  The body of the loop for one token. \<^verbatim>\<open>avg_doc_len\<close> and \<^verbatim>\<open>doc_len\<close> are not
  \<^verbatim>\<open>None\<close> here (the validation returned otherwise), so the test of the source reduces
  to the membership of the token in the IDF dictionary. The operands are evaluated left to
  right: the IDF entry, the conversion of \<^verbatim>\<open>doc_len\<close>, the ratio of the lengths, the
  quotient. A count is the length of a list at most and is converted without a test.
\<close>

definition bm25_score ::
  "string list \<Rightarrow> (string \<times> real) list \<Rightarrow> real \<Rightarrow> real \<Rightarrow> real \<Rightarrow> int \<Rightarrow> string \<Rightarrow> error + real" where
  "bm25_score document idf_document k1 b avg_doc_len doc_len token =
     (let token_count = (if token \<in> set document then 0 + count_list document token else 0) in
      if map_of idf_document token \<noteq> None then
        (case py_getitem idf_document token of
           Inl e \<Rightarrow> Inl e
         | Inr idf \<Rightarrow>
             (case int_to_float doc_len of
                Inl e \<Rightarrow> Inl e
              | Inr len \<Rightarrow>
                  (case py_div len avg_doc_len of
                     Inl e \<Rightarrow> Inl e
                   | Inr ratio \<Rightarrow>
                       (case py_div (real token_count * (k1 + 1))
                                    (real token_count + k1 * (1 - b + b * ratio)) of
                          Inl e \<Rightarrow> Inl e
                        | Inr q \<Rightarrow> Inr (idf * q)))))
      else Inr 0)"

definition calculate_bm25 ::
  "string list \<Rightarrow> string list \<Rightarrow> (string \<times> real) list \<Rightarrow> real \<Rightarrow> real \<Rightarrow> real option \<Rightarrow> int option
     \<Rightarrow> error + (string \<times> real) list option" where
  "calculate_bm25 vocab document idf_document k1 b avg_doc_len doc_len =
     (if length vocab = 0 \<or> length document = 0 \<or> length idf_document = 0 then Inr None
      else case avg_doc_len of
        None \<Rightarrow> Inr None
      | Some avg \<Rightarrow>
          (case doc_len of
             None \<Rightarrow> Inr None
           | Some dl \<Rightarrow>
               map_sum id Some
                 (traverse
                    (\<lambda>token. map_sum id (Pair token)
                       (bm25_score document idf_document k1 b avg dl token))
                    (token_union vocab document))))"

subsection \<open>rank_documents\<close>

text \<open>
  The indexes are compared by \<^verbatim>\<open>list.index\<close>, that is with \<^verbatim>\<open>==\<close>, which on
  dictionaries ignores the order of insertion: here a score dictionary is a finite map.
\<close>

definition value_sum :: "(string, real) fmap \<Rightarrow> string list \<Rightarrow> real" where
  "value_sum bm25_tfidf_dict processed_query =
     sum_list (map (\<lambda>token. the (fmlookup bm25_tfidf_dict token))
       (filter (\<lambda>token. fmlookup bm25_tfidf_dict token \<noteq> None) processed_query))"

fun rank_loop ::
  "(string, real) fmap list \<Rightarrow> string list \<Rightarrow> (string, real) fmap list \<Rightarrow> (nat \<times> real) list
     \<Rightarrow> error + (nat \<times> real) list" where
  "rank_loop indexes processed_query [] result_not_sorted = Inr result_not_sorted"
| "rank_loop indexes processed_query (bm25_tfidf_dict # rest) result_not_sorted =
     (case list_index indexes bm25_tfidf_dict of
        Inl e \<Rightarrow> Inl e
      | Inr i \<Rightarrow>
          rank_loop indexes processed_query rest
            (AList.update i (value_sum bm25_tfidf_dict processed_query) result_not_sorted))"

text \<open>
  \<^verbatim>\<open>sorted(xs, key=key, reverse=True)\<close>: the list is reversed, sorted by a stable
  ascending sort and reversed again.
\<close>

definition sorted_reverse :: "('a \<Rightarrow> real) \<Rightarrow> 'a list \<Rightarrow> 'a list" where
  "sorted_reverse key xs = rev (sort_key key (rev xs))"

definition rank_documents ::
  "(string, real) fmap list \<Rightarrow> string \<Rightarrow> string list \<Rightarrow> error + (nat \<times> real) list option" where
  "rank_documents indexes query stopwords =
     (if indexes = [] \<or> query = [] \<or> stopwords = [] then Inr None
      else case tokenize query of
        None \<Rightarrow> Inr None
      | Some tokenized_query \<Rightarrow>
          (case remove_stopwords tokenized_query stopwords of
             None \<Rightarrow> Inr None
           | Some processed_query \<Rightarrow>
               (case rank_loop indexes processed_query indexes [] of
                  Inl e \<Rightarrow> Inl e
                | Inr result_not_sorted \<Rightarrow> Inr (Some (sorted_reverse snd result_not_sorted)))))"

subsection \<open>calculate_bm25_with_cutoff\<close>

fun cutoff_loop ::
  "string list \<Rightarrow> string list \<Rightarrow> (string \<times> real) list \<Rightarrow> real \<Rightarrow> real \<Rightarrow> real \<Rightarrow> real \<Rightarrow> int
     \<Rightarrow> (string \<times> real) list \<Rightarrow> error + (string \<times> real) list" where
  "cutoff_loop [] document idf_document alpha k1 b avg_doc_len doc_len bm25_with_cutoff =
     Inr bm25_with_cutoff"
| "cutoff_loop (word # rest) document idf_document alpha k1 b avg_doc_len doc_len bm25_with_cutoff =
     (case map_of idf_document word of
        None \<Rightarrow>
          cutoff_loop rest document idf_document alpha k1 b avg_doc_len doc_len bm25_with_cutoff
      | Some idf \<Rightarrow>
          if idf \<ge> alpha then
            (let word_count = count_list document word in
             case int_to_float doc_len of
               Inl e \<Rightarrow> Inl e
             | Inr len \<Rightarrow>
                 (case py_div (b * len) avg_doc_len of
                    Inl e \<Rightarrow> Inl e
                  | Inr ratio \<Rightarrow>
                      (case py_div (real word_count * (k1 + 1))
                                   (real word_count + k1 * (1 - b + ratio)) of
                         Inl e \<Rightarrow> Inl e
                       | Inr q \<Rightarrow>
                           cutoff_loop rest document idf_document alpha k1 b avg_doc_len doc_len
                             (AList.update word (idf * q) bm25_with_cutoff))))
          else
            cutoff_loop rest document idf_document alpha k1 b avg_doc_len doc_len bm25_with_cutoff)"

definition calculate_bm25_with_cutoff ::
  "string list \<Rightarrow> string list \<Rightarrow> (string \<times> real) list \<Rightarrow> real \<Rightarrow> real \<Rightarrow> real \<Rightarrow> real option
     \<Rightarrow> int option \<Rightarrow> error + (string \<times> real) list option" where
  "calculate_bm25_with_cutoff vocab document idf_document alpha k1 b avg_doc_len doc_len =
     (if vocab = [] \<or> document = [] then Inr None
      else if idf_document = [] then Inr None
      else case avg_doc_len of
        None \<Rightarrow> Inr None
      | Some avg \<Rightarrow>
          (case doc_len of
             None \<Rightarrow> Inr None
           | Some dl \<Rightarrow>
               if dl < 0 then Inr None
               else map_sum id Some
                      (cutoff_loop vocab document idf_document alpha k1 b avg dl [])))"

subsection \<open>calculate_spearman\<close>

fun spearman_loop :: "int list \<Rightarrow> int list \<Rightarrow> int list \<Rightarrow> int \<Rightarrow> error + int" where
  "spearman_loop rank golden_rank [] rank_differences = Inr rank_differences"
| "spearman_loop rank golden_rank (item # rest) rank_differences =
     (if item \<in> set golden_rank then
        (case list_index golden_rank item of
           Inl e \<Rightarrow> Inl e
         | Inr g \<Rightarrow>
             (case list_index rank item of
                Inl e \<Rightarrow> Inl e
              | Inr r \<Rightarrow>
                  spearman_loop rank golden_rank rest
                    (rank_differences + (int g - int r) ^ 2)))
      else spearman_loop rank golden_rank rest rank_differences)"

definition calculate_spearman :: "int list \<Rightarrow> int list \<Rightarrow> error + real option" where
  "calculate_spearman rank golden_rank =
     (if rank = [] then Inr None
      else if golden_rank = [] \<or> length rank \<noteq> length golden_rank then Inr None
      else
        let n = int (length rank) in
        case spearman_loop rank golden_rank rank 0 of
          Inl e \<Rightarrow> Inl e
        | Inr rank_differences \<Rightarrow>
            (case py_div (real_of_int (6 * rank_differences)) (real_of_int (n * (n ^ 2 - 1))) of
               Inl e \<Rightarrow> Inl e
             | Inr q \<Rightarrow> Inr (Some (1 - q))))"

subsection \<open>save_index and load_index\<close>

















section \<open>Properties\<close>

subsection \<open>tokenize\<close>

lemma tokenize_loop_map:
  "tokenize_loop syms s =
     map (\<lambda>c. if c \<in> set syms \<and> \<not> isalpha c \<and> c \<noteq> CHR '' '' then CHR '' '' else c) s"
proof (induction syms arbitrary: s)
  case Nil
  show ?case by simp
next
  case (Cons sym syms)
  show ?case by (auto simp: Cons.IH str_replace_def)
qed

text \<open>After the loop every character that is not a letter has become a space.\<close>

lemma tokenize_loop_self:
  "tokenize_loop s s = map (\<lambda>c. if isalpha c then c else CHR '' '') s"
  by (simp add: tokenize_loop_map)

lemma split_from_spaces: "split_from [] (replicate n (CHR '' '')) = []"
  by (induction n) (simp_all add: isspace_def)

lemma lower_spaces: "lower (replicate n (CHR '' '')) = replicate n (CHR '' '')"
  by (simp add: lower_def lower_char_def)

text \<open>
  Claim C8. For every non-empty string without an alphabetic character, \<^verbatim>\<open>tokenize\<close>
  returns the empty list, and not \<^verbatim>\<open>None\<close>: an empty token list is a successful result.
\<close>

theorem tokenize_no_letters:
  assumes "s \<noteq> []" and "\<forall>c \<in> set s. \<not> isalpha c"
  shows "tokenize s = Some []"
proof -
  have "tokenize_loop s s = replicate (length s) (CHR '' '')"
    using assms(2) by (simp add: tokenize_loop_self map_replicate_const cong: map_cong)
  then have "str_split (lower (tokenize_loop s s)) = []"
    by (simp add: str_split_def lower_spaces split_from_spaces)
  with assms(1) show ?thesis
    by (simp add: tokenize_def)
qed

theorem tokenize_no_letters_witness:
  "''12, 3!'' \<noteq> [] \<and> tokenize ''12, 3!'' = Some [] \<and> tokenize ''12, 3!'' \<noteq> None"
  using tokenize_no_letters [of "''12, 3!''"] by (simp add: isalpha_def)

subsection \<open>remove_stopwords\<close>

text \<open>
  Claim C9. For non-empty lists of tokens and of stopwords in which every token is a
  stopword, \<^verbatim>\<open>remove_stopwords\<close> returns the empty list, and not \<^verbatim>\<open>None\<close>.
\<close>

theorem remove_stopwords_all_removed:
  assumes "tokens \<noteq> []" and "stopwords \<noteq> []" and "set tokens \<subseteq> set stopwords"
  shows "remove_stopwords tokens stopwords = Some []"
  using assms by (auto simp: remove_stopwords_def filter_empty_conv)

theorem remove_stopwords_all_removed_witness:
  "remove_stopwords [''the'', ''a'', ''the''] [''a'', ''the''] = Some []"
  using remove_stopwords_all_removed [of "[''the'', ''a'', ''the'']" "[''a'', ''the'']"] by simp

subsection \<open>Comprehensions and token sets\<close>

lemma traverse_Inr:
  assumes "\<And>x. x \<in> set xs \<Longrightarrow> f x = Inr (g x)"
  shows "traverse f xs = Inr (map g xs)"
  using assms by (induction xs) simp_all

lemma distinct_token_union: "distinct (token_union vocab document)"
  by (simp add: token_union_def)

lemma set_token_union: "set (token_union vocab document) = set vocab \<union> set document"
  by (simp add: token_union_def)

subsection \<open>calculate_tf\<close>

lemma count_list_sum:
  assumes "distinct ts" and "set document \<subseteq> set ts"
  shows "sum_list (map (count_list document) ts) = length document"
proof -
  have "sum_list (map (count_list document) ts) = sum (count_list document) (set ts)"
    using assms(1) by (simp add: sum_list_distinct_conv_sum_set)
  also have "\<dots> = length document"
    using assms(2) by (simp add: sum_count_set)
  finally show ?thesis .
qed

text \<open>
  The term frequencies over any duplicate-free enumeration that covers the document add
  up to one: the result does not depend on the order in which the set is enumerated.
\<close>

lemma tf_values_sum:
  assumes "distinct ts" and "set document \<subseteq> set ts" and "document \<noteq> []"
  shows "(\<Sum>t\<leftarrow>ts. real (count_list document t) / real (length document)) = 1"
proof -
  have "(\<Sum>t\<leftarrow>ts. real (count_list document t) / real (length document))
      = real (sum_list (map (count_list document) ts)) / real (length document)"
    by (induction ts) (simp_all add: add_divide_distrib)
  also have "\<dots> = real (length document) / real (length document)"
    using assms(1,2) by (simp add: count_list_sum)
  finally show ?thesis using assms(3) by simp
qed

lemma calculate_tf_eq:
  assumes "vocab \<noteq> []" and "document \<noteq> []"
  shows "calculate_tf vocab document =
     Inr (Some (map (\<lambda>t. (t, real (count_list document t) / real (length document)))
                    (token_union vocab document)))"
proof -
  have "traverse (\<lambda>token. map_sum id (Pair token)
           (py_div (real (count_list document token)) (real (length document))))
          (token_union vocab document)
      = Inr (map (\<lambda>t. (t, real (count_list document t) / real (length document)))
                    (token_union vocab document))"
    using assms(2) by (intro traverse_Inr) (simp add: py_div_def)
  then show ?thesis using assms by (simp add: calculate_tf_def Let_def)
qed

text \<open>
  Claim C10. For a non-empty vocabulary and a non-empty document, \<^verbatim>\<open>calculate_tf\<close>
  returns a dictionary over the union of the vocabulary and the document tokens whose
  values, in exact arithmetic, sum to one: a vocabulary term that is not in the document
  has the value 0, and every other key has its count divided by the document length.
\<close>

theorem calculate_tf_values_sum:
  assumes "vocab \<noteq> []" and "document \<noteq> []"
  shows "\<exists>tf. calculate_tf vocab document = Inr (Some tf)
           \<and> distinct (map fst tf)
           \<and> set (map fst tf) = set vocab \<union> set document
           \<and> (\<forall>t \<in> set vocab \<union> set document.
                 map_of tf t = Some (real (count_list document t) / real (length document)))
           \<and> (\<forall>t \<in> set vocab - set document. map_of tf t = Some 0)
           \<and> sum_list (map snd tf) = 1"
proof -
  let ?f = "\<lambda>t. real (count_list document t) / real (length document)"
  let ?tf = "map (\<lambda>t. (t, ?f t)) (token_union vocab document)"
  have keys: "map fst ?tf = token_union vocab document"
    by (simp add: comp_def)
  have vals: "map snd ?tf = map ?f (token_union vocab document)"
    by (simp add: comp_def)
  have look: "map_of ?tf t = Some (?f t)" if "t \<in> set vocab \<union> set document" for t
    using that by (simp add: map_of_map_restrict set_token_union)
  have zero: "map_of ?tf t = Some 0" if "t \<in> set vocab - set document" for t
    using that look [of t] by (simp add: count_list_0_iff)
  have total: "sum_list (map snd ?tf) = 1"
    unfolding vals using assms(2)
    by (intro tf_values_sum) (simp_all add: distinct_token_union set_token_union)
  have "calculate_tf vocab document = Inr (Some ?tf)"
    by (rule calculate_tf_eq [OF assms])
  moreover have "distinct (map fst ?tf)"
    unfolding keys by (rule distinct_token_union)
  moreover have "set (map fst ?tf) = set vocab \<union> set document"
    unfolding keys by (rule set_token_union)
  moreover have "\<forall>t \<in> set vocab \<union> set document. map_of ?tf t = Some (?f t)"
    using look by blast
  moreover have "\<forall>t \<in> set vocab - set document. map_of ?tf t = Some 0"
    using zero by blast
  ultimately show ?thesis
    using total by blast
qed

theorem calculate_tf_values_sum_witness:
  "\<exists>tf. calculate_tf [''a'', ''c''] [''a'', ''b'', ''a''] = Inr (Some tf)
      \<and> map_of tf ''a'' = Some (2 / 3) \<and> map_of tf ''c'' = Some 0 \<and> sum_list (map snd tf) = 1"
proof -
  have ne: "[''a'', ''c''] \<noteq> []" "[''a'', ''b'', ''a''] \<noteq> []"
    by simp_all
  from calculate_tf_values_sum [OF ne]
  obtain tf where tf: "calculate_tf [''a'', ''c''] [''a'', ''b'', ''a''] = Inr (Some tf)"
    and look: "\<forall>t \<in> set [''a'', ''c''] \<union> set [''a'', ''b'', ''a''].
       map_of tf t = Some (real (count_list [''a'', ''b'', ''a''] t) / real (length [''a'', ''b'', ''a'']))"
    and total: "sum_list (map snd tf) = 1"
    by blast
  have "map_of tf ''a'' = Some (2 / 3)" using look by simp
  moreover have "map_of tf ''c'' = Some 0" using look by simp
  ultimately show ?thesis using tf total by blast
qed

subsection \<open>calculate_tf_idf\<close>

lemma list_empty_iff: "xs = [] \<longleftrightarrow> (\<forall>x. x \<notin> set xs)"
  by (cases xs) auto

lemma calculate_tf_idf_eq:
  "calculate_tf_idf tf idf =
     (if filter (\<lambda>t. map_of idf t \<noteq> None) (map fst tf) = [] then Inr None
      else Inr (Some (map (\<lambda>t. (t, the (map_of tf t) * the (map_of idf t)))
                          (filter (\<lambda>t. map_of idf t \<noteq> None) (map fst tf)))))"
proof -
  let ?keys = "filter (\<lambda>t. map_of idf t \<noteq> None) (map fst tf)"
  let ?g = "\<lambda>t. (t, the (map_of tf t) * the (map_of idf t))"
  have "traverse
          (\<lambda>token. case py_getitem tf token of
                      Inl e \<Rightarrow> Inl e
                    | Inr t \<Rightarrow> (case py_getitem idf token of
                                  Inl e \<Rightarrow> Inl e
                                | Inr i \<Rightarrow> Inr (token, t * i)))
          ?keys = Inr (map ?g ?keys)"
  proof (rule traverse_Inr)
    fix x assume "x \<in> set ?keys"
    then have "x \<in> fst ` set tf" and "map_of idf x \<noteq> None"
      by auto
    then have "map_of tf x \<noteq> None" and "map_of idf x \<noteq> None"
      by (simp_all add: map_of_eq_None_iff)
    then obtain a b where "map_of tf x = Some a" and "map_of idf x = Some b"
      by blast
    then show "(case py_getitem tf x of
                  Inl e \<Rightarrow> Inl e
                | Inr t \<Rightarrow> (case py_getitem idf x of
                              Inl e \<Rightarrow> Inl e
                            | Inr i \<Rightarrow> Inr (x, t * i))) = Inr (?g x)"
      by (simp add: py_getitem_def)
  qed
  then show ?thesis
    by (simp add: calculate_tf_idf_def)
qed

text \<open>
  Claim C6. For a TF dictionary and an IDF dictionary, \<^verbatim>\<open>calculate_tf_idf\<close> returns
  the dictionary that assigns \<^verbatim>\<open>tf[t] * idf[t]\<close> to every token \<open>t\<close> that is a key of
  both (a token that is not a key of the IDF dictionary is dropped), and returns
  \<^verbatim>\<open>None\<close> when that dictionary would be empty, that is when no token is a key of both.
\<close>

theorem calculate_tf_idf_correct:
  "((\<exists>t. map_of tf t \<noteq> None \<and> map_of idf t \<noteq> None) \<longrightarrow>
      (\<exists>r. calculate_tf_idf tf idf = Inr (Some r) \<and>
         (\<forall>t. map_of r t =
            (case map_of tf t of
               None \<Rightarrow> None
             | Some a \<Rightarrow> (case map_of idf t of None \<Rightarrow> None | Some b \<Rightarrow> Some (a * b))))))
   \<and> (\<not> (\<exists>t. map_of tf t \<noteq> None \<and> map_of idf t \<noteq> None) \<longrightarrow>
        calculate_tf_idf tf idf = Inr None)"
proof -
  let ?keys = "filter (\<lambda>t. map_of idf t \<noteq> None) (map fst tf)"
  let ?g = "\<lambda>t. the (map_of tf t) * the (map_of idf t)"
  have mem: "t \<in> set ?keys \<longleftrightarrow> map_of tf t \<noteq> None \<and> map_of idf t \<noteq> None" for t
    by (auto simp: map_of_eq_None_iff)
  have empty: "?keys = [] \<longleftrightarrow> \<not> (\<exists>t. map_of tf t \<noteq> None \<and> map_of idf t \<noteq> None)"
  proof -
    have "?keys = [] \<longleftrightarrow> (\<forall>t. t \<notin> set ?keys)"
      by (rule list_empty_iff)
    then show ?thesis unfolding mem by blast
  qed
  have look: "map_of (map (\<lambda>t. (t, ?g t)) ?keys) t =
      (case map_of tf t of
         None \<Rightarrow> None
       | Some a \<Rightarrow> (case map_of idf t of None \<Rightarrow> None | Some b \<Rightarrow> Some (a * b)))" for t
  proof (cases "t \<in> set ?keys")
    case True
    then obtain a b where "map_of tf t = Some a" "map_of idf t = Some b"
      unfolding mem by auto
    with True show ?thesis
      by (simp add: map_of_map_restrict)
  next
    case False
    then have "map_of tf t = None \<or> map_of idf t = None"
      unfolding mem by simp
    with False show ?thesis
      by (auto simp: map_of_map_restrict restrict_map_def split: option.splits)
  qed
  show ?thesis
  proof (intro conjI impI)
    assume "\<exists>t. map_of tf t \<noteq> None \<and> map_of idf t \<noteq> None"
    then have "?keys \<noteq> []" using empty by blast
    then have "calculate_tf_idf tf idf = Inr (Some (map (\<lambda>t. (t, ?g t)) ?keys))"
      by (simp add: calculate_tf_idf_eq)
    with look show "\<exists>r. calculate_tf_idf tf idf = Inr (Some r) \<and>
         (\<forall>t. map_of r t =
            (case map_of tf t of
               None \<Rightarrow> None
             | Some a \<Rightarrow> (case map_of idf t of None \<Rightarrow> None | Some b \<Rightarrow> Some (a * b))))"
      by blast
  next
    assume "\<not> (\<exists>t. map_of tf t \<noteq> None \<and> map_of idf t \<noteq> None)"
    then have "?keys = []" using empty by blast
    then show "calculate_tf_idf tf idf = Inr None"
      by (simp add: calculate_tf_idf_eq)
  qed
qed

theorem calculate_tf_idf_correct_witness:
  "(\<exists>r. calculate_tf_idf [(''a'', 1 / 2), (''b'', 1 / 2)] [(''b'', 3), (''c'', 4)] = Inr (Some r)
        \<and> map_of r ''a'' = None \<and> map_of r ''b'' = Some (3 / 2) \<and> map_of r ''c'' = None)
   \<and> calculate_tf_idf [(''a'', 1)] [(''c'', 4)] = Inr None"
proof -
  have common: "\<exists>t. map_of [(''a'', 1 / 2 :: real), (''b'', 1 / 2)] t \<noteq> None
                  \<and> map_of [(''b'', 3 :: real), (''c'', 4)] t \<noteq> None"
    by (rule exI [of _ "''b''"]) simp
  have none: "\<not> (\<exists>t. map_of [(''a'', 1 :: real)] t \<noteq> None \<and> map_of [(''c'', 4 :: real)] t \<noteq> None)"
    by (simp split: if_splits)
  from calculate_tf_idf_correct [of "[(''a'', 1 / 2), (''b'', 1 / 2)]" "[(''b'', 3), (''c'', 4)]"] common
  obtain r where r: "calculate_tf_idf [(''a'', 1 / 2), (''b'', 1 / 2)] [(''b'', 3), (''c'', 4)] = Inr (Some r)"
    and look: "\<And>t. map_of r t =
            (case map_of [(''a'', 1 / 2 :: real), (''b'', 1 / 2)] t of
               None \<Rightarrow> None
             | Some a \<Rightarrow> (case map_of [(''b'', 3 :: real), (''c'', 4)] t of None \<Rightarrow> None | Some b \<Rightarrow> Some (a * b)))"
    by blast
  have "map_of r ''a'' = None" "map_of r ''b'' = Some (3 / 2)" "map_of r ''c'' = None"
    by (simp_all add: look)
  moreover have "calculate_tf_idf [(''a'', 1)] [(''c'', 4)] = Inr None"
    using calculate_tf_idf_correct [of "[(''a'', 1)]" "[(''c'', 4)]"] none by blast
  ultimately show ?thesis using r by blast
qed

subsection \<open>calculate_idf\<close>

text \<open>The score of the source formula for \<open>n\<close> of \<open>N\<close> documents.\<close>

lemma idf_score_eq:
  "idf_score token documents =
     Inr (ln ((real (length documents)
                 - real (length (filter (\<lambda>document. token \<in> set document) documents)) + 0.5)
              / (real (length (filter (\<lambda>document. token \<in> set document) documents)) + 0.5)))"
proof -
  let ?n = "length (filter (\<lambda>document. token \<in> set document) documents)"
  let ?N = "length documents"
  have le: "?n \<le> ?N" by simp
  then have num: "real_of_int (int ?N - int ?n) + 0.5 = real ?N - real ?n + 0.5"
    by simp
  have "real ?n \<le> real ?N" using le by (simp only: of_nat_le_iff)
  then have "0 < real ?N - real ?n + 0.5" by linarith
  moreover have "0 < real ?n + 0.5" by simp
  ultimately have "0 < (real ?N - real ?n + 0.5) / (real ?n + 0.5)"
    by (rule divide_pos_pos)
  then show ?thesis
    unfolding idf_score_def Let_def num by (simp add: py_div_def py_log_def)
qed

text \<open>
  The loop never raises; it assigns the score of every token of the vocabulary and keeps
  the other entries of the dictionary.
\<close>

lemma idf_loop_Inr:
  "\<exists>r. idf_loop tokens documents acc = Inr r
     \<and> fst ` set r = set tokens \<union> fst ` set acc
     \<and> (distinct (map fst acc) \<longrightarrow> distinct (map fst r))
     \<and> (\<forall>t. map_of r t =
            (if t \<in> set tokens then Some (projr (idf_score t documents)) else map_of acc t))"
proof (induction tokens arbitrary: acc)
  case Nil
  show ?case by simp
next
  case (Cons token rest)
  obtain v where v: "idf_score token documents = Inr v"
    using idf_score_eq by blast
  from Cons.IH [of "AList.update token v acc"]
  obtain r where r: "idf_loop rest documents (AList.update token v acc) = Inr r"
    and keys: "fst ` set r = set rest \<union> fst ` set (AList.update token v acc)"
    and dist: "distinct (map fst (AList.update token v acc)) \<longrightarrow> distinct (map fst r)"
    and look: "\<And>t. map_of r t =
            (if t \<in> set rest then Some (projr (idf_score t documents))
             else map_of (AList.update token v acc) t)"
    by blast
  have "idf_loop (token # rest) documents acc = Inr r"
    using v r by simp
  moreover have "fst ` set r = set (token # rest) \<union> fst ` set acc"
    using keys by (auto simp: dom_update)
  moreover have "distinct (map fst acc) \<longrightarrow> distinct (map fst r)"
    using dist by (simp add: distinct_update)
  moreover have "\<forall>t. map_of r t =
            (if t \<in> set (token # rest) then Some (projr (idf_score t documents)) else map_of acc t)"
    using v by (auto simp: look update_conv')
  ultimately show ?case by blast
qed

text \<open>
  Claim C5. For a non-empty vocabulary and a non-empty corpus of alphabetic tokens,
  \<^verbatim>\<open>calculate_idf\<close> returns a dictionary whose keys are exactly the distinct vocabulary
  terms; a term \<open>t\<close> contained in \<open>n\<close> of the \<open>N\<close> documents is mapped to
  \<open>ln ((N - n + 0.5) / (n + 0.5))\<close>, unclamped. A term contained in every document has a
  negative score, and a term contained in no document has the score
  \<open>ln ((N + 0.5) / 0.5)\<close>, the largest value of the formula for \<open>N\<close> documents.
\<close>

theorem calculate_idf_correct:
  assumes "vocab \<noteq> []" and "documents \<noteq> []"
    and "list_all str_isalpha vocab" and "list_all (list_all str_isalpha) documents"
  shows "\<exists>idf. calculate_idf vocab documents = Inr (Some idf)
    \<and> distinct (map fst idf) \<and> set (map fst idf) = set vocab
    \<and> (\<forall>t \<in> set vocab.
          map_of idf t =
            Some (ln ((real (length documents)
                         - real (length (filter (\<lambda>d. t \<in> set d) documents)) + 0.5)
                      / (real (length (filter (\<lambda>d. t \<in> set d) documents)) + 0.5))))
    \<and> (\<forall>t \<in> set vocab. \<forall>v. (\<forall>d \<in> set documents. t \<in> set d) \<longrightarrow> map_of idf t = Some v \<longrightarrow> v < 0)
    \<and> (\<forall>t \<in> set vocab. \<forall>v. (\<forall>d \<in> set documents. t \<notin> set d) \<longrightarrow> map_of idf t = Some v \<longrightarrow>
          v = ln ((real (length documents) + 0.5) / 0.5)
          \<and> (\<forall>n \<le> length documents.
                ln ((real (length documents) - real n + 0.5) / (real n + 0.5)) \<le> v))"
proof -
  let ?N = "length documents"
  let ?n = "\<lambda>t. length (filter (\<lambda>d. t \<in> set d) documents)"
  let ?score = "\<lambda>t. ln ((real ?N - real (?n t) + 0.5) / (real (?n t) + 0.5))"
  obtain idf where loop: "idf_loop vocab documents [] = Inr idf"
    and keys: "fst ` set idf = set vocab \<union> fst ` set ([] :: (string \<times> real) list)"
    and dist: "distinct (map fst ([] :: (string \<times> real) list)) \<longrightarrow> distinct (map fst idf)"
    and look: "\<And>t. map_of idf t =
            (if t \<in> set vocab then Some (projr (idf_score t documents)) else map_of [] t)"
    using idf_loop_Inr [of vocab documents "[]"] by blast
  have res: "calculate_idf vocab documents = Inr (Some idf)"
    using assms loop by (simp add: calculate_idf_def)
  have d: "distinct (map fst idf)" using dist by simp
  have k: "set (map fst idf) = set vocab" using keys by simp
  have l: "map_of idf t = Some (?score t)" if "t \<in> set vocab" for t
    using that by (simp add: look idf_score_eq)
  have N: "0 < ?N" using assms(2) by simp
  have neg: "v < 0" if "t \<in> set vocab" and "\<forall>d \<in> set documents. t \<in> set d"
    and "map_of idf t = Some v" for t v
  proof -
    have "?n t = ?N" using that(2) by simp
    then have v: "v = ln (0.5 / (real ?N + 0.5))"
      using l [OF that(1)] that(3) by simp
    have "0.5 / (real ?N + 0.5) < 1" using N by simp
    moreover have "0 < 0.5 / (real ?N + 0.5)" by simp
    ultimately show ?thesis unfolding v by simp
  qed
  have top: "v = ln ((real ?N + 0.5) / 0.5)
      \<and> (\<forall>n \<le> ?N. ln ((real ?N - real n + 0.5) / (real n + 0.5)) \<le> v)"
    if "t \<in> set vocab" and "\<forall>d \<in> set documents. t \<notin> set d"
    and "map_of idf t = Some v" for t v
  proof -
    have "filter (\<lambda>d. t \<in> set d) documents = []"
      using that(2) by (simp add: filter_empty_conv)
    then have "?n t = 0" by simp
    then have v: "v = ln ((real ?N + 0.5) / 0.5)"
      using l [OF that(1)] that(3) by simp
    have "ln ((real ?N - real n + 0.5) / (real n + 0.5)) \<le> v" if "n \<le> ?N" for n
    proof -
      have le: "real n \<le> real ?N" using that by (simp only: of_nat_le_iff)
      have n0: "0 \<le> real n" by simp
      have "0 < real ?N - real n + 0.5" using le by linarith
      moreover have "0 < real n + 0.5" using n0 by linarith
      ultimately have pos: "0 < (real ?N - real n + 0.5) / (real n + 0.5)"
        by (rule divide_pos_pos)
      have "(real ?N - real n + 0.5) / (real n + 0.5) \<le> (real ?N + 0.5) / 0.5"
      proof (rule frac_le)
        show "0 \<le> real ?N + 0.5" by simp
        show "real ?N - real n + 0.5 \<le> real ?N + 0.5" using n0 by linarith
        show "(0::real) < 0.5" by simp
        show "0.5 \<le> real n + 0.5" using n0 by linarith
      qed
      then show ?thesis unfolding v using pos by simp
    qed
    with v show ?thesis by blast
  qed
  show ?thesis
    using res d k l neg top by blast
qed

theorem calculate_idf_correct_witness:
  "\<exists>idf. calculate_idf [''a'', ''b'', ''c''] [[''a'', ''b''], [''a'']] = Inr (Some idf)
     \<and> set (map fst idf) = {''a'', ''b'', ''c''}
     \<and> (\<exists>v. map_of idf ''a'' = Some v \<and> v < 0)
     \<and> map_of idf ''b'' = Some 0
     \<and> map_of idf ''c'' = Some (ln 5)"
proof -
  let ?V = "[''a'', ''b'', ''c'']"
  let ?D = "[[''a'', ''b''], [''a'']]"
  have h: "?V \<noteq> []" "?D \<noteq> []" "list_all str_isalpha ?V" "list_all (list_all str_isalpha) ?D"
    by (simp_all add: str_isalpha_def isalpha_def)
  from calculate_idf_correct [OF h]
  obtain idf where res: "calculate_idf ?V ?D = Inr (Some idf)"
    and keys: "set (map fst idf) = set ?V"
    and look: "\<forall>t \<in> set ?V.
          map_of idf t =
            Some (ln ((real (length ?D) - real (length (filter (\<lambda>d. t \<in> set d) ?D)) + 0.5)
                      / (real (length (filter (\<lambda>d. t \<in> set d) ?D)) + 0.5)))"
    and neg: "\<forall>t \<in> set ?V. \<forall>v. (\<forall>d \<in> set ?D. t \<in> set d) \<longrightarrow> map_of idf t = Some v \<longrightarrow> v < 0"
    by blast
  have k: "set (map fst idf) = {''a'', ''b'', ''c''}"
    using keys by simp
  have a: "map_of idf ''a'' = Some (ln (0.5 / 2.5))"
    using look by simp
  have "ln (0.5 / 2.5 :: real) < 0"
    using neg a by simp
  with a have a': "\<exists>v. map_of idf ''a'' = Some v \<and> v < 0"
    by blast
  have b: "map_of idf ''b'' = Some 0"
    using look by simp
  have c: "map_of idf ''c'' = Some (ln 5)"
    using look by simp
  show ?thesis
    using res k a' b c by blast
qed

subsection \<open>calculate_bm25\<close>

text \<open>
  A comprehension raises when one element raises and no element raises anything else,
  wherever that element stands in the enumeration.
\<close>

lemma traverse_Inl:
  assumes "x \<in> set xs" and "f x = Inl e" and "\<forall>y \<in> set xs. \<forall>e'. f y = Inl e' \<longrightarrow> e' = e"
  shows "traverse f xs = Inl e"
  using assms(1,3)
proof (induction xs)
  case Nil
  then show ?case by simp
next
  case (Cons a xs)
  show ?case
  proof (cases "f a")
    case (Inl e')
    have "a \<in> set (a # xs)" by simp
    with Cons.prems(2) Inl have "e' = e" by blast
    with Inl show ?thesis by simp
  next
    case (Inr y)
    have "x \<noteq> a" using Inr assms(2) by auto
    with Cons.prems(1) have mem: "x \<in> set xs" by simp
    have "\<forall>y \<in> set xs. \<forall>e'. f y = Inl e' \<longrightarrow> e' = e"
      using Cons.prems(2) by (meson list.set_intros(2))
    from Cons.IH [OF mem this] have "traverse f xs = Inl e" .
    with Inr show ?thesis by simp
  qed
qed

lemma int_to_float_in_range:
  assumes "\<bar>i\<bar> < 2 ^ 1024 - 2 ^ 970"
  shows "int_to_float i = Inr (real_of_int i)"
  using assms by (simp add: int_to_float_def)

lemma int_to_float_overflow:
  assumes "2 ^ 1024 - 2 ^ 970 \<le> \<bar>i\<bar>"
  shows "int_to_float i = Inl OverflowError"
  using assms by (simp add: int_to_float_def)

text \<open>The outcomes of the loop body, in the order in which the code reaches them.\<close>

lemma bm25_score_cases:
  "bm25_score document idf_document k1 b avg_doc_len doc_len token =
     (case map_of idf_document token of
        None \<Rightarrow> Inr 0
      | Some idf \<Rightarrow>
          if 2 ^ 1024 - 2 ^ 970 \<le> \<bar>doc_len\<bar> then Inl OverflowError
          else if avg_doc_len = 0 then Inl ZeroDivisionError
          else if real (count_list document token)
                    + k1 * (1 - b + b * (real_of_int doc_len / avg_doc_len)) = 0
          then Inl ZeroDivisionError
          else Inr (idf * (real (count_list document token) * (k1 + 1))
                      / (real (count_list document token)
                           + k1 * (1 - b + b * (real_of_int doc_len / avg_doc_len)))))"
proof -
  have count: "(if token \<in> set document then 0 + count_list document token else 0)
      = count_list document token"
    by (simp add: count_list_0_iff)
  show ?thesis
  proof (cases "map_of idf_document token")
    case None
    then show ?thesis by (simp add: bm25_score_def)
  next
    case (Some idf)
    then have get: "py_getitem idf_document token = Inr idf"
      by (simp add: py_getitem_def)
    show ?thesis
    proof (cases "2 ^ 1024 - 2 ^ 970 \<le> \<bar>doc_len\<bar>")
      case True
      then have conv: "int_to_float doc_len = Inl OverflowError"
        by (rule int_to_float_overflow)
      show ?thesis
        unfolding bm25_score_def count Let_def get conv using True by (simp add: Some)
    next
      case False
      then have conv: "int_to_float doc_len = Inr (real_of_int doc_len)"
        by (simp add: int_to_float_in_range)
      show ?thesis
      proof (cases "avg_doc_len = 0")
        case True
        then show ?thesis
          unfolding bm25_score_def count Let_def get conv using False
          by (simp add: Some py_div_def)
      next
        case nonzero: False
        then have ratio: "py_div (real_of_int doc_len) avg_doc_len
            = Inr (real_of_int doc_len / avg_doc_len)"
          by (simp add: py_div_def)
        show ?thesis
          unfolding bm25_score_def count Let_def get conv ratio using False nonzero
          by (simp add: Some py_div_def)
      qed
    qed
  qed
qed

text \<open>
  With a zero average length and a length that converts, the only exception of the loop
  body is the division by zero.
\<close>

lemma bm25_score_error_avg_zero:
  assumes "bm25_score document idf_document k1 b 0 doc_len token = Inl e"
    and "\<bar>doc_len\<bar> < 2 ^ 1024 - 2 ^ 970"
  shows "e = ZeroDivisionError"
proof (cases "map_of idf_document token")
  case None
  with assms(1) show ?thesis by (simp add: bm25_score_cases)
next
  case (Some idf)
  from assms(2) have "\<not> 2 ^ 1024 - 2 ^ 970 \<le> \<bar>doc_len\<bar>" by simp
  with assms(1) Some show ?thesis by (simp add: bm25_score_cases)
qed

lemma bm25_score_avg_zero:
  assumes "map_of idf_document token \<noteq> None" and "\<bar>doc_len\<bar> < 2 ^ 1024 - 2 ^ 970"
  shows "bm25_score document idf_document k1 b 0 doc_len token = Inl ZeroDivisionError"
proof -
  from assms(1) obtain idf where "map_of idf_document token = Some idf" by blast
  moreover from assms(2) have "\<not> 2 ^ 1024 - 2 ^ 970 \<le> \<bar>doc_len\<bar>" by simp
  ultimately show ?thesis by (simp add: bm25_score_cases)
qed

lemma bm25_score_no_idf:
  assumes "map_of idf_document token = None"
  shows "bm25_score document idf_document k1 b avg_doc_len doc_len token = Inr 0"
  using assms by (simp add: bm25_score_cases)

lemma bm25_score_idf:
  assumes "map_of idf_document token = Some idf"
    and "\<bar>doc_len\<bar> < 2 ^ 1024 - 2 ^ 970" and "avg_doc_len \<noteq> 0"
    and "real (count_list document token)
           + k1 * (1 - b + b * (real_of_int doc_len / avg_doc_len)) \<noteq> 0"
  shows "bm25_score document idf_document k1 b avg_doc_len doc_len token =
     Inr (idf * (real (count_list document token) * (k1 + 1))
            / (real (count_list document token)
                 + k1 * (1 - b + b * (real_of_int doc_len / avg_doc_len))))"
proof -
  from assms(2) have "\<not> 2 ^ 1024 - 2 ^ 970 \<le> \<bar>doc_len\<bar>" by simp
  with assms(1,3,4) show ?thesis
    by (simp only: bm25_score_cases option.case if_False)
qed

text \<open>
  With a zero average length the call raises as soon as one token of the union has an IDF
  entry, whatever the order of the enumeration.
\<close>

lemma calculate_bm25_avg_zero:
  assumes "vocab \<noteq> []" and "document \<noteq> []" and "idf_document \<noteq> []"
    and "t \<in> set vocab \<union> set document" and "map_of idf_document t \<noteq> None"
    and "\<bar>doc_len\<bar> < 2 ^ 1024 - 2 ^ 970"
  shows "calculate_bm25 vocab document idf_document k1 b (Some 0) (Some doc_len) = Inl ZeroDivisionError"
proof -
  let ?f = "\<lambda>token. map_sum id (Pair token) (bm25_score document idf_document k1 b 0 doc_len token)"
  have "traverse ?f (token_union vocab document) = Inl ZeroDivisionError"
  proof (rule traverse_Inl [of t])
    show "t \<in> set (token_union vocab document)"
      using assms(4) by (simp add: set_token_union)
    show "?f t = Inl ZeroDivisionError"
      using assms(5,6) by (simp add: bm25_score_avg_zero)
    show "\<forall>y \<in> set (token_union vocab document). \<forall>e'. ?f y = Inl e' \<longrightarrow> e' = ZeroDivisionError"
    proof (intro ballI allI impI)
      fix y e' assume "?f y = Inl e'"
      then have "bm25_score document idf_document k1 b 0 doc_len y = Inl e'"
        by (cases "bm25_score document idf_document k1 b 0 doc_len y") simp_all
      then show "e' = ZeroDivisionError"
        using assms(6) by (rule bm25_score_error_avg_zero)
    qed
  qed
  then show ?thesis
    using assms(1-3) by (simp add: calculate_bm25_def)
qed

text \<open>
  In exact arithmetic, where \<^verbatim>\<open>doc_len\<close> converts and no divisor is zero for a token that
  has an IDF entry, the result is the dictionary of the BM25 scores: its keys are the
  union of the vocabulary and the document tokens, a token with an IDF entry scores
  \<open>idf[t] * (f * (k1 + 1)) / (f + k1 * (1 - b + b * (doc_len / avg_doc_len)))\<close> with \<open>f\<close>
  its count in the document, and a token without an IDF entry scores 0. The rounding of
  doubles is outside this statement.
\<close>

lemma calculate_bm25_defined:
  assumes "vocab \<noteq> []" and "document \<noteq> []" and "idf_document \<noteq> []"
    and "\<forall>t \<in> set vocab \<union> set document.
           map_of idf_document t \<noteq> None \<longrightarrow>
           \<bar>doc_len\<bar> < 2 ^ 1024 - 2 ^ 970 \<and> avg_doc_len \<noteq> 0
           \<and> real (count_list document t)
               + k1 * (1 - b + b * (real_of_int doc_len / avg_doc_len)) \<noteq> 0"
  shows "\<exists>bm25. calculate_bm25 vocab document idf_document k1 b (Some avg_doc_len) (Some doc_len)
                   = Inr (Some bm25)
     \<and> distinct (map fst bm25)
     \<and> set (map fst bm25) = set vocab \<union> set document
     \<and> (\<forall>t \<in> set vocab \<union> set document.
           map_of bm25 t =
             Some (case map_of idf_document t of
                     None \<Rightarrow> 0
                   | Some idf \<Rightarrow>
                       idf * (real (count_list document t) * (k1 + 1))
                         / (real (count_list document t)
                              + k1 * (1 - b + b * (real_of_int doc_len / avg_doc_len)))))"
proof -
  let ?g = "\<lambda>t. case map_of idf_document t of
                     None \<Rightarrow> 0
                   | Some idf \<Rightarrow>
                       idf * (real (count_list document t) * (k1 + 1))
                         / (real (count_list document t)
                              + k1 * (1 - b + b * (real_of_int doc_len / avg_doc_len)))"
  let ?f = "\<lambda>token. map_sum id (Pair token)
              (bm25_score document idf_document k1 b avg_doc_len doc_len token)"
  let ?bm25 = "map (\<lambda>t. (t, ?g t)) (token_union vocab document)"
  have score: "bm25_score document idf_document k1 b avg_doc_len doc_len t = Inr (?g t)"
    if "t \<in> set vocab \<union> set document" for t
  proof (cases "map_of idf_document t")
    case None
    then show ?thesis by (simp add: bm25_score_no_idf)
  next
    case (Some idf)
    with assms(4) that
    have "\<bar>doc_len\<bar> < 2 ^ 1024 - 2 ^ 970" and "avg_doc_len \<noteq> 0"
      and "real (count_list document t)
            + k1 * (1 - b + b * (real_of_int doc_len / avg_doc_len)) \<noteq> 0"
      by blast+
    from bm25_score_idf [OF Some this] Some show ?thesis by simp
  qed
  have "traverse ?f (token_union vocab document) = Inr ?bm25"
    by (rule traverse_Inr) (simp add: set_token_union score)
  then have res: "calculate_bm25 vocab document idf_document k1 b (Some avg_doc_len) (Some doc_len)
      = Inr (Some ?bm25)"
    using assms(1-3) by (simp add: calculate_bm25_def)
  have keys: "map fst ?bm25 = token_union vocab document"
    by (simp add: comp_def)
  have d: "distinct (map fst ?bm25)"
    unfolding keys by (rule distinct_token_union)
  have k: "set (map fst ?bm25) = set vocab \<union> set document"
    unfolding keys by (rule set_token_union)
  have look: "map_of ?bm25 t = (if t \<in> set vocab \<union> set document then Some (?g t) else None)" for t
    by (simp add: map_of_map_restrict set_token_union restrict_map_def)
  have l: "\<forall>t \<in> set vocab \<union> set document. map_of ?bm25 t = Some (?g t)"
  proof
    fix t assume "t \<in> set vocab \<union> set document"
    then show "map_of ?bm25 t = Some (?g t)"
      by (simp only: look if_True)
  qed
  show ?thesis
  proof (intro exI conjI)
    show "calculate_bm25 vocab document idf_document k1 b (Some avg_doc_len) (Some doc_len)
      = Inr (Some ?bm25)" by (rule res)
  qed (rule d k l)+
qed

lemma calculate_bm25_example:
  "calculate_bm25 [''a'', ''c''] [''a'', ''b'', ''a''] [(''a'', 2)] 1.5 0.75 (Some 3) (Some 3)
     = Inr (Some [(''c'', 0), (''b'', 0), (''a'', 20 / 7)])"
  by (simp add: calculate_bm25_def token_union_def bm25_score_cases)

text \<open>
  Claim C3 says that for every valid vocabulary, document, IDF dictionary, \<^verbatim>\<open>k1\<close>,
  \<^verbatim>\<open>b\<close>, \<^verbatim>\<open>avg_doc_len\<close> and \<^verbatim>\<open>doc_len\<close> \<^verbatim>\<open>calculate_bm25\<close> returns a dictionary over
  the union of the vocabulary and the document tokens, with the BM25 score of every token
  that has an IDF entry and 0 for every other token. The code returns no dictionary on
  \<^verbatim>\<open>calculate_bm25(["a", "b"], ["a", "a"], {"a": 1.0}, 1.5, 0.75, 0.0, 2)\<close> nor on
  \<^verbatim>\<open>calculate_bm25(["a", "b"], ["a"], {"b": 1.0}, 0.0, 0.75, 1.0, 1)\<close>: both pass the
  validation and raise \<^verbatim>\<open>ZeroDivisionError\<close>, the first in \<^verbatim>\<open>doc_len / avg_doc_len\<close>, the
  second in the quotient, whose divisor is \<^verbatim>\<open>0 + 0.0 * (...)\<close>.
\<close>

theorem calculate_bm25_raises:
  "calculate_bm25 [''a'', ''b''] [''a'', ''a''] [(''a'', 1)] 1.5 0.75 (Some 0) (Some 2)
     = Inl ZeroDivisionError
   \<and> calculate_bm25 [''a'', ''b''] [''a''] [(''b'', 1)] 0 0.75 (Some 1) (Some 1)
     = Inl ZeroDivisionError"
  by (simp add: calculate_bm25_def token_union_def bm25_score_cases)

subsection \<open>calculate_spearman\<close>

text \<open>For rankings of length one the divisor \<open>n * (n\<^sup>2 - 1)\<close> is zero.\<close>

lemma calculate_spearman_singleton:
  "calculate_spearman [x] [y] = Inl ZeroDivisionError"
  by (simp add: calculate_spearman_def py_div_def)

text \<open>
  Claim C1 says that no public operation raises on arguments that pass its validation, and
  in particular that \<^verbatim>\<open>calculate_spearman\<close> on two integer lists of length one and
  \<^verbatim>\<open>calculate_bm25\<close> with \<^verbatim>\<open>avg_doc_len = 0.0\<close> return a value or \<^verbatim>\<open>None\<close>. The code
  does not: \<^verbatim>\<open>calculate_spearman([1], [1])\<close> and
  \<^verbatim>\<open>calculate_bm25(["a"], ["a"], {"a": 1.0}, 1.5, 0.75, 0.0, 1)\<close> both raise
  \<^verbatim>\<open>ZeroDivisionError\<close>.
\<close>

theorem operations_raise_ZeroDivisionError:
  "calculate_spearman [1] [1] = Inl ZeroDivisionError
   \<and> calculate_bm25 [''a''] [''a''] [(''a'', 1)] 1.5 0.75 (Some 0) (Some 1) = Inl ZeroDivisionError"
  by (simp add: calculate_spearman_def py_div_def calculate_bm25_def token_union_def bm25_score_cases)

subsection \<open>calculate_bm25_with_cutoff\<close>

text \<open>One round of the loop: a word is scored when it has an IDF entry of at least \<open>alpha\<close>.\<close>

lemma cutoff_loop_skip:
  assumes "\<forall>idf. map_of idf_document word = Some idf \<longrightarrow> idf < alpha"
  shows "cutoff_loop (word # rest) document idf_document alpha k1 b avg_doc_len doc_len acc
       = cutoff_loop rest document idf_document alpha k1 b avg_doc_len doc_len acc"
proof (cases "map_of idf_document word")
  case None
  then show ?thesis by simp
next
  case (Some idf)
  with assms have "\<not> alpha \<le> idf" by simp
  with Some show ?thesis by simp
qed

lemma cutoff_loop_score:
  assumes "map_of idf_document word = Some idf" and "alpha \<le> idf"
    and "\<bar>doc_len\<bar> < 2 ^ 1024 - 2 ^ 970" and "avg_doc_len \<noteq> 0"
    and "real (count_list document word)
           + k1 * (1 - b + b * (real_of_int doc_len / avg_doc_len)) \<noteq> 0"
  shows "cutoff_loop (word # rest) document idf_document alpha k1 b avg_doc_len doc_len acc
       = cutoff_loop rest document idf_document alpha k1 b avg_doc_len doc_len
           (AList.update word
              (idf * (real (count_list document word) * (k1 + 1))
                 / (real (count_list document word)
                      + k1 * (1 - b + b * (real_of_int doc_len / avg_doc_len))))
              acc)"
proof -
  have conv: "int_to_float doc_len = Inr (real_of_int doc_len)"
    using assms(3) by (rule int_to_float_in_range)
  have ratio: "py_div (b * real_of_int doc_len) avg_doc_len
      = Inr (b * real_of_int doc_len / avg_doc_len)"
    using assms(4) by (simp add: py_div_def)
  have den: "real (count_list document word)
               + k1 * (1 - b + b * real_of_int doc_len / avg_doc_len) \<noteq> 0"
    using assms(5) by simp
  have quot: "py_div (real (count_list document word) * (k1 + 1))
                (real (count_list document word)
                   + k1 * (1 - b + b * real_of_int doc_len / avg_doc_len))
      = Inr (real (count_list document word) * (k1 + 1)
               / (real (count_list document word)
                    + k1 * (1 - b + b * real_of_int doc_len / avg_doc_len)))"
    using den by (simp add: py_div_def)
  show ?thesis
    using assms(1,2) by (simp add: Let_def conv ratio quot)
qed

lemma cutoff_loop_raises:
  assumes "map_of idf_document word = Some idf" and "alpha \<le> idf"
    and "\<bar>doc_len\<bar> < 2 ^ 1024 - 2 ^ 970"
  shows "cutoff_loop (word # rest) document idf_document alpha k1 b 0 doc_len acc
       = Inl ZeroDivisionError"
proof -
  have conv: "int_to_float doc_len = Inr (real_of_int doc_len)"
    using assms(3) by (rule int_to_float_in_range)
  show ?thesis
    using assms(1,2) by (simp add: Let_def conv py_div_def)
qed

text \<open>When no word reaches the threshold the loop divides nothing and changes nothing.\<close>

lemma cutoff_loop_none:
  assumes "\<forall>word \<in> set vocab. \<forall>idf. map_of idf_document word = Some idf \<longrightarrow> idf < alpha"
  shows "cutoff_loop vocab document idf_document alpha k1 b avg_doc_len doc_len acc = Inr acc"
  using assms
proof (induction vocab)
  case Nil
  show ?case by simp
next
  case (Cons word rest)
  have "\<forall>idf. map_of idf_document word = Some idf \<longrightarrow> idf < alpha"
    using Cons.prems by simp
  then have "cutoff_loop (word # rest) document idf_document alpha k1 b avg_doc_len doc_len acc
       = cutoff_loop rest document idf_document alpha k1 b avg_doc_len doc_len acc"
    by (rule cutoff_loop_skip)
  also have "\<dots> = Inr acc"
    using Cons.prems by (intro Cons.IH) simp
  finally show ?case .
qed

text \<open>
  In exact arithmetic, where \<^verbatim>\<open>doc_len\<close> converts and no divisor is zero for a word that
  reaches the threshold, the loop adds exactly the words of the vocabulary that reach the
  threshold, each with its score.
\<close>

lemma cutoff_loop_Inr:
  assumes "\<forall>word \<in> set vocab. \<forall>idf. map_of idf_document word = Some idf \<longrightarrow> alpha \<le> idf \<longrightarrow>
           \<bar>doc_len\<bar> < 2 ^ 1024 - 2 ^ 970 \<and> avg_doc_len \<noteq> 0
           \<and> real (count_list document word)
               + k1 * (1 - b + b * (real_of_int doc_len / avg_doc_len)) \<noteq> 0"
  shows "\<exists>r. cutoff_loop vocab document idf_document alpha k1 b avg_doc_len doc_len acc = Inr r
     \<and> fst ` set r
         = {word \<in> set vocab. \<exists>idf. map_of idf_document word = Some idf \<and> alpha \<le> idf}
             \<union> fst ` set acc
     \<and> (distinct (map fst acc) \<longrightarrow> distinct (map fst r))
     \<and> (\<forall>t. map_of r t =
           (if t \<in> set vocab \<and> (\<exists>idf. map_of idf_document t = Some idf \<and> alpha \<le> idf)
            then Some (the (map_of idf_document t) * (real (count_list document t) * (k1 + 1))
                         / (real (count_list document t)
                              + k1 * (1 - b + b * (real_of_int doc_len / avg_doc_len))))
            else map_of acc t))"
  using assms
proof (induction vocab arbitrary: acc)
  case Nil
  show ?case by simp
next
  case (Cons word rest)
  let ?den = "\<lambda>t. real (count_list document t)
                 + k1 * (1 - b + b * (real_of_int doc_len / avg_doc_len))"
  let ?score = "\<lambda>t. the (map_of idf_document t) * (real (count_list document t) * (k1 + 1))
                         / ?den t"
  let ?q = "\<lambda>t. \<exists>idf. map_of idf_document t = Some idf \<and> alpha \<le> idf"
  have prems_rest: "\<forall>word \<in> set rest. \<forall>idf. map_of idf_document word = Some idf \<longrightarrow> alpha \<le> idf \<longrightarrow>
           \<bar>doc_len\<bar> < 2 ^ 1024 - 2 ^ 970 \<and> avg_doc_len \<noteq> 0 \<and> ?den word \<noteq> 0"
    using Cons.prems by simp
  show ?case
  proof (cases "?q word")
    case False
    then have "\<forall>idf. map_of idf_document word = Some idf \<longrightarrow> idf < alpha"
      by auto
    then have step: "cutoff_loop (word # rest) document idf_document alpha k1 b avg_doc_len doc_len acc
       = cutoff_loop rest document idf_document alpha k1 b avg_doc_len doc_len acc"
      by (rule cutoff_loop_skip)
    from Cons.IH [OF prems_rest, of acc]
    obtain r where r: "cutoff_loop rest document idf_document alpha k1 b avg_doc_len doc_len acc = Inr r"
      and keys: "fst ` set r = {w \<in> set rest. ?q w} \<union> fst ` set acc"
      and dist: "distinct (map fst acc) \<longrightarrow> distinct (map fst r)"
      and look: "\<And>t. map_of r t = (if t \<in> set rest \<and> ?q t then Some (?score t) else map_of acc t)"
      by blast
    have "cutoff_loop (word # rest) document idf_document alpha k1 b avg_doc_len doc_len acc = Inr r"
      using step r by simp
    moreover have "fst ` set r = {w \<in> set (word # rest). ?q w} \<union> fst ` set acc"
      unfolding keys using False by auto
    moreover have "\<forall>t. map_of r t =
        (if t \<in> set (word # rest) \<and> ?q t then Some (?score t) else map_of acc t)"
      unfolding look using False by auto
    ultimately show ?thesis using dist by blast
  next
    case True
    then obtain idf where idf: "map_of idf_document word = Some idf" and ge: "alpha \<le> idf"
      by blast
    have "word \<in> set (word # rest)" by simp
    with Cons.prems idf ge
    have range: "\<bar>doc_len\<bar> < 2 ^ 1024 - 2 ^ 970" and avg: "avg_doc_len \<noteq> 0"
      and den: "?den word \<noteq> 0"
      by blast+
    have sc: "idf * (real (count_list document word) * (k1 + 1)) / ?den word = ?score word"
      using idf by simp
    let ?acc = "AList.update word (?score word) acc"
    have step: "cutoff_loop (word # rest) document idf_document alpha k1 b avg_doc_len doc_len acc
       = cutoff_loop rest document idf_document alpha k1 b avg_doc_len doc_len ?acc"
      using cutoff_loop_score [OF idf ge range avg den] unfolding sc .
    from Cons.IH [OF prems_rest, of ?acc]
    obtain r where r: "cutoff_loop rest document idf_document alpha k1 b avg_doc_len doc_len ?acc = Inr r"
      and keys: "fst ` set r = {w \<in> set rest. ?q w} \<union> fst ` set ?acc"
      and dist: "distinct (map fst ?acc) \<longrightarrow> distinct (map fst r)"
      and look: "\<And>t. map_of r t = (if t \<in> set rest \<and> ?q t then Some (?score t) else map_of ?acc t)"
      by blast
    have "cutoff_loop (word # rest) document idf_document alpha k1 b avg_doc_len doc_len acc = Inr r"
      using step r by simp
    moreover have "fst ` set r = {w \<in> set (word # rest). ?q w} \<union> fst ` set acc"
      unfolding keys dom_update using True by auto
    moreover have "distinct (map fst acc) \<longrightarrow> distinct (map fst r)"
      using dist by (simp add: distinct_update)
    moreover have "\<forall>t. map_of r t =
        (if t \<in> set (word # rest) \<and> ?q t then Some (?score t) else map_of acc t)"
      unfolding look update_conv' using True by auto
    ultimately show ?thesis by blast
  qed
qed

text \<open>
  In exact arithmetic, under the same conditions, the result is the dictionary of the
  terms above the cutoff: its keys are precisely the vocabulary terms whose IDF is at least
  \<^verbatim>\<open>alpha\<close>, each with the score of \<^verbatim>\<open>calculate_bm25\<close>, and a term whose IDF is below
  \<^verbatim>\<open>alpha\<close> is not a key. The rounding of doubles is outside this statement.
\<close>

lemma calculate_bm25_with_cutoff_defined:
  assumes "vocab \<noteq> []" and "document \<noteq> []" and "idf_document \<noteq> []" and "0 \<le> doc_len"
    and "\<forall>t \<in> set vocab. \<forall>idf. map_of idf_document t = Some idf \<longrightarrow> alpha \<le> idf \<longrightarrow>
           \<bar>doc_len\<bar> < 2 ^ 1024 - 2 ^ 970 \<and> avg_doc_len \<noteq> 0
           \<and> real (count_list document t)
               + k1 * (1 - b + b * (real_of_int doc_len / avg_doc_len)) \<noteq> 0"
  shows "\<exists>bm25. calculate_bm25_with_cutoff vocab document idf_document alpha k1 b
                 (Some avg_doc_len) (Some doc_len) = Inr (Some bm25)
         \<and> distinct (map fst bm25)
         \<and> set (map fst bm25)
             = {t \<in> set vocab. \<exists>idf. map_of idf_document t = Some idf \<and> alpha \<le> idf}
         \<and> (\<forall>t \<in> set vocab. \<forall>idf. map_of idf_document t = Some idf \<longrightarrow> alpha \<le> idf \<longrightarrow>
               map_of bm25 t =
                 Some (idf * (real (count_list document t) * (k1 + 1))
                         / (real (count_list document t)
                              + k1 * (1 - b + b * (real_of_int doc_len / avg_doc_len)))))
         \<and> (\<forall>t idf. map_of idf_document t = Some idf \<longrightarrow> idf < alpha \<longrightarrow> map_of bm25 t = None)"
proof -
  let ?q = "\<lambda>t. \<exists>idf. map_of idf_document t = Some idf \<and> alpha \<le> idf"
  let ?score = "\<lambda>t. the (map_of idf_document t) * (real (count_list document t) * (k1 + 1))
                         / (real (count_list document t)
                              + k1 * (1 - b + b * (real_of_int doc_len / avg_doc_len)))"
  from cutoff_loop_Inr [OF assms(5), of "[]"]
  obtain r where r: "cutoff_loop vocab document idf_document alpha k1 b avg_doc_len doc_len [] = Inr r"
    and keys: "fst ` set r = {t \<in> set vocab. ?q t} \<union> fst ` set ([] :: (string \<times> real) list)"
    and dist: "distinct (map fst ([] :: (string \<times> real) list)) \<longrightarrow> distinct (map fst r)"
    and look: "\<And>t. map_of r t = (if t \<in> set vocab \<and> ?q t then Some (?score t) else map_of [] t)"
    by blast
  have res: "calculate_bm25_with_cutoff vocab document idf_document alpha k1 b
                 (Some avg_doc_len) (Some doc_len) = Inr (Some r)"
    using assms(1-4) r by (simp add: calculate_bm25_with_cutoff_def)
  have d: "distinct (map fst r)" using dist by simp
  have k: "set (map fst r) = {t \<in> set vocab. ?q t}" using keys by simp
  have l: "\<forall>t \<in> set vocab. \<forall>idf. map_of idf_document t = Some idf \<longrightarrow> alpha \<le> idf \<longrightarrow>
               map_of r t =
                 Some (idf * (real (count_list document t) * (k1 + 1))
                         / (real (count_list document t)
                              + k1 * (1 - b + b * (real_of_int doc_len / avg_doc_len))))"
  proof (intro ballI allI impI)
    fix t idf assume "t \<in> set vocab" "map_of idf_document t = Some idf" "alpha \<le> idf"
    then show "map_of r t =
                 Some (idf * (real (count_list document t) * (k1 + 1))
                         / (real (count_list document t)
                              + k1 * (1 - b + b * (real_of_int doc_len / avg_doc_len))))"
      unfolding look by auto
  qed
  have o: "\<forall>t idf. map_of idf_document t = Some idf \<longrightarrow> idf < alpha \<longrightarrow> map_of r t = None"
  proof (intro allI impI)
    fix t idf assume "map_of idf_document t = Some idf" "idf < alpha"
    then have "\<not> ?q t" by auto
    then show "map_of r t = None" unfolding look by simp
  qed
  show ?thesis
    by (intro exI [of _ r] conjI res d k l o)
qed

text \<open>
  When \<^verbatim>\<open>alpha\<close> exceeds every IDF value the result is the empty dictionary, for every
  document, every \<^verbatim>\<open>avg_doc_len\<close> and every \<^verbatim>\<open>doc_len \<ge> 0\<close>: nothing is divided.
\<close>

lemma calculate_bm25_with_cutoff_empty:
  assumes "vocab \<noteq> []" and "document \<noteq> []" and "idf_document \<noteq> []" and "0 \<le> doc_len"
    and "\<forall>idf \<in> snd ` set idf_document. idf < alpha"
  shows "calculate_bm25_with_cutoff vocab document idf_document alpha k1 b
            (Some avg_doc_len) (Some doc_len) = Inr (Some [])"
proof -
  from assms(5)
  have "\<forall>word \<in> set vocab. \<forall>idf. map_of idf_document word = Some idf \<longrightarrow> idf < alpha"
    by (metis map_of_SomeD snd_conv image_eqI)
  then have "cutoff_loop vocab document idf_document alpha k1 b avg_doc_len doc_len [] = Inr []"
    by (rule cutoff_loop_none)
  then show ?thesis
    using assms(1-4) by (simp add: calculate_bm25_with_cutoff_def)
qed

lemma calculate_bm25_with_cutoff_example:
  "calculate_bm25_with_cutoff [''a'', ''c'', ''d''] [''a'', ''b'', ''a'']
     [(''a'', 2), (''c'', 1)] 1.5 1.5 0.75 (Some 3) (Some 3) = Inr (Some [(''a'', 20 / 7)])
   \<and> calculate_bm25_with_cutoff [''a'', ''c'', ''d''] [''a'', ''b'', ''a'']
        [(''a'', 2), (''c'', 1)] 2.5 1.5 0.75 (Some 0) (Some 3) = Inr (Some [])"
  by (simp add: calculate_bm25_with_cutoff_def int_to_float_def py_div_def)

text \<open>
  Claim C4 says that for every valid input \<^verbatim>\<open>calculate_bm25_with_cutoff\<close> returns a
  dictionary that holds precisely the vocabulary terms whose IDF is at least \<^verbatim>\<open>alpha\<close>,
  each with the score of \<^verbatim>\<open>calculate_bm25\<close>, and the empty dictionary when \<^verbatim>\<open>alpha\<close>
  exceeds every IDF value. The code returns no dictionary on
  \<^verbatim>\<open>calculate_bm25_with_cutoff(["a"], ["a"], {"a": 1.0}, 0.5, 1.5, 0.75, 0.0, 1)\<close> nor on
  \<^verbatim>\<open>calculate_bm25_with_cutoff(["a", "b"], ["a"], {"b": 1.0}, 0.5, 0.0, 0.75, 1.0, 1)\<close>:
  both pass the validation and raise \<^verbatim>\<open>ZeroDivisionError\<close>, the first in
  \<^verbatim>\<open>b * doc_len / avg_doc_len\<close>, the second in the quotient, whose divisor is
  \<^verbatim>\<open>0 + 0.0 * (...)\<close>.
\<close>

theorem calculate_bm25_with_cutoff_raises:
  "calculate_bm25_with_cutoff [''a''] [''a''] [(''a'', 1)] 0.5 1.5 0.75 (Some 0) (Some 1)
     = Inl ZeroDivisionError
   \<and> calculate_bm25_with_cutoff [''a'', ''b''] [''a''] [(''b'', 1)] 0.5 0 0.75 (Some 1) (Some 1)
     = Inl ZeroDivisionError"
  by (simp add: calculate_bm25_with_cutoff_def int_to_float_def py_div_def)

subsection \<open>rank_documents\<close>

text \<open>In a list without equal elements \<^verbatim>\<open>index\<close> finds every element at its own position.\<close>

lemma list_index_nth:
  assumes "distinct xs" and "i < length xs"
  shows "list_index xs (xs ! i) = Inr i"
  using assms
proof (induction xs arbitrary: i)
  case Nil
  then show ?case by simp
next
  case (Cons x xs)
  show ?case
  proof (cases i)
    case 0
    then show ?thesis by simp
  next
    case (Suc j)
    with Cons.prems have j: "j < length xs" and d: "distinct xs" and "x \<notin> set xs"
      by simp_all
    then have "x \<noteq> xs ! j" using nth_mem [OF j] by metis
    with Cons.IH [OF d j] Suc show ?thesis by simp
  qed
qed

text \<open>Assigning a new key appends it to the dictionary.\<close>

lemma update_fresh:
  assumes "k \<notin> fst ` set al"
  shows "AList.update k v al = al @ [(k, v)]"
  using assms by (induction al) auto

lemma rank_loop_distinct:
  assumes "distinct indexes" and "k \<le> length indexes"
  shows "rank_loop indexes processed_query (drop k indexes)
           (map (\<lambda>i. (i, value_sum (indexes ! i) processed_query)) [0..<k])
       = Inr (map (\<lambda>i. (i, value_sum (indexes ! i) processed_query)) [0..<length indexes])"
  using assms(2)
proof (induction "length indexes - k" arbitrary: k)
  case 0
  then have "k = length indexes" by simp
  then show ?case by simp
next
  case (Suc m)
  let ?pair = "\<lambda>i. (i, value_sum (indexes ! i) processed_query)"
  from Suc.hyps(2) have k: "k < length indexes" by simp
  then have drop: "drop k indexes = indexes ! k # drop (Suc k) indexes"
    by (simp add: Cons_nth_drop_Suc)
  have idx: "list_index indexes (indexes ! k) = Inr k"
    using assms(1) k by (rule list_index_nth)
  have "k \<notin> fst ` set (map ?pair [0..<k])"
    by (simp add: image_image)
  then have upd: "AList.update k (value_sum (indexes ! k) processed_query) (map ?pair [0..<k])
      = map ?pair [0..<Suc k]"
    by (simp add: update_fresh)
  have "rank_loop indexes processed_query (drop k indexes) (map ?pair [0..<k])
      = rank_loop indexes processed_query (drop (Suc k) indexes) (map ?pair [0..<Suc k])"
    unfolding drop by (simp only: rank_loop.simps idx sum.case upd)
  also have "\<dots> = Inr (map ?pair [0..<length indexes])"
    using Suc.hyps(2) k by (intro Suc.hyps(1)) simp_all
  finally show ?case .
qed

text \<open>The sort: a permutation, descending in the key, that keeps the order of equal keys.\<close>

lemma mset_sorted_reverse: "mset (sorted_reverse key xs) = mset xs"
  by (simp add: sorted_reverse_def)

lemma sorted_sorted_reverse: "sorted (rev (map key (sorted_reverse key xs)))"
  by (simp add: sorted_reverse_def rev_map)

lemma sorted_reverse_stable:
  "filter (\<lambda>y. key y = v) (sorted_reverse key xs) = filter (\<lambda>y. key y = v) xs"
  by (simp add: sorted_reverse_def rev_filter [symmetric] sort_key_stable)

text \<open>
  When the score dictionaries are pairwise different and the query has a token, the result
  has one pair for each document index, carrying the sum of the document's scores over the
  filtered query tokens it contains, sorted by the sum in descending order with equal sums
  in their original order.
\<close>

lemma rank_documents_distinct:
  assumes "distinct indexes" and "indexes \<noteq> []" and "stopwords \<noteq> []"
    and "tokenize query = Some tokenized_query" and "tokenized_query \<noteq> []"
  shows "\<exists>r. rank_documents indexes query stopwords = Inr (Some r)
     \<and> mset r = mset (map (\<lambda>i. (i, value_sum (indexes ! i)
                                     (filter (\<lambda>x. x \<notin> set stopwords) tokenized_query)))
                          [0..<length indexes])
     \<and> sorted (rev (map snd r))
     \<and> (\<forall>v. filter (\<lambda>p. snd p = v) r
            = filter (\<lambda>p. snd p = v)
                (map (\<lambda>i. (i, value_sum (indexes ! i)
                                 (filter (\<lambda>x. x \<notin> set stopwords) tokenized_query)))
                     [0..<length indexes]))"
proof -
  let ?pq = "filter (\<lambda>x. x \<notin> set stopwords) tokenized_query"
  let ?xs = "map (\<lambda>i. (i, value_sum (indexes ! i) ?pq)) [0..<length indexes]"
  have q: "query \<noteq> []"
    using assms(4) by (auto simp: tokenize_def split: if_splits)
  have rs: "remove_stopwords tokenized_query stopwords = Some ?pq"
    using assms(3,5) by (simp add: remove_stopwords_def)
  have "rank_loop indexes ?pq (drop 0 indexes) (map (\<lambda>i. (i, value_sum (indexes ! i) ?pq)) [0..<0])
      = Inr ?xs"
    using assms(1) by (rule rank_loop_distinct) simp
  then have loop: "rank_loop indexes ?pq indexes [] = Inr ?xs"
    by simp
  have res: "rank_documents indexes query stopwords = Inr (Some (sorted_reverse snd ?xs))"
    using assms(2,3) q by (simp add: rank_documents_def assms(4) rs loop)
  show ?thesis
    by (intro exI [of _ "sorted_reverse snd ?xs"] conjI allI res mset_sorted_reverse
        sorted_sorted_reverse sorted_reverse_stable)
qed

text \<open>
  Claim C2 says that \<^verbatim>\<open>rank_documents\<close> returns exactly one (index, sum) pair for each
  document index, sorted by the sum in descending order and stably. The loop finds the
  index of a document with \<^verbatim>\<open>indexes.index\<close>, which returns the first position of an
  equal dictionary: for the two equal documents of
  \<^verbatim>\<open>rank_documents([{"a": 1.0}, {"a": 1.0}], "a", ["the"])\<close> the result has the single
  pair \<^verbatim>\<open>(0, 1.0)\<close>, and the document index 1 is missing.
\<close>

theorem rank_documents_duplicate_index:
  "rank_documents [fmap_of_list [(''a'', 1)], fmap_of_list [(''a'', 1)]] ''a'' [''the'']
     = Inr (Some [(0, 1)])"
  by (simp add: rank_documents_def tokenize_def remove_stopwords_def str_split_def lower_def
      lower_char_def isalpha_def isspace_def value_sum_def sorted_reverse_def)

text \<open>The example of the specification, a tie, and a query without a letter.\<close>

lemma rank_documents_example:
  "rank_documents
     [fmap_of_list [(''cat'', 1), (''dog'', 0.5)], fmap_of_list [(''cat'', 0), (''dog'', 2)]]
     ''cat dog'' [''the'']
   = Inr (Some [(1, 2), (0, 1.5)])"
  by code_simp

lemma rank_documents_ties:
  "rank_documents
     [fmap_of_list [(''a'', 1)], fmap_of_list [(''b'', 1)], fmap_of_list [(''a'', 1), (''c'', 1)]]
     ''a'' [''the'']
   = Inr (Some [(0, 1), (2, 1), (1, 0)])"
  by code_simp

lemma rank_documents_no_letters:
  "rank_documents [fmap_of_list [(''a'', 1)]] ''123'' [''the''] = Inr None"
  by code_simp

subsection \<open>The scores of the cutoff variant are BM25 scores\<close>

text \<open>
  Where the divisions of \<^verbatim>\<open>calculate_bm25\<close> are defined, \<^verbatim>\<open>calculate_bm25_with_cutoff\<close>
  on the same arguments returns a part of its result: every entry of the cutoff dictionary
  is an entry of the BM25 dictionary.
\<close>

lemma cutoff_agrees_with_bm25:
  assumes "vocab \<noteq> []" and "document \<noteq> []" and "idf_document \<noteq> []" and "0 \<le> doc_len"
    and "\<forall>t \<in> set vocab \<union> set document.
           map_of idf_document t \<noteq> None \<longrightarrow>
           \<bar>doc_len\<bar> < 2 ^ 1024 - 2 ^ 970 \<and> avg_doc_len \<noteq> 0
           \<and> real (count_list document t)
               + k1 * (1 - b + b * (real_of_int doc_len / avg_doc_len)) \<noteq> 0"
  shows "\<exists>cutoff bm25.
      calculate_bm25_with_cutoff vocab document idf_document alpha k1 b
        (Some avg_doc_len) (Some doc_len) = Inr (Some cutoff)
    \<and> calculate_bm25 vocab document idf_document k1 b (Some avg_doc_len) (Some doc_len)
        = Inr (Some bm25)
    \<and> (\<forall>t v. map_of cutoff t = Some v \<longrightarrow> map_of bm25 t = Some v)"
proof -
  let ?den = "\<lambda>t. real (count_list document t)
                 + k1 * (1 - b + b * (real_of_int doc_len / avg_doc_len))"
  let ?q = "\<lambda>t. \<exists>idf. map_of idf_document t = Some idf \<and> alpha \<le> idf"
  from calculate_bm25_defined [OF assms(1-3) assms(5)]
  obtain bm25 where full: "calculate_bm25 vocab document idf_document k1 b
        (Some avg_doc_len) (Some doc_len) = Inr (Some bm25)"
    and look_full: "\<forall>t \<in> set vocab \<union> set document.
           map_of bm25 t =
             Some (case map_of idf_document t of
                     None \<Rightarrow> 0
                   | Some idf \<Rightarrow> idf * (real (count_list document t) * (k1 + 1)) / ?den t)"
    by blast
  have pre: "\<forall>t \<in> set vocab. \<forall>idf. map_of idf_document t = Some idf \<longrightarrow> alpha \<le> idf \<longrightarrow>
           \<bar>doc_len\<bar> < 2 ^ 1024 - 2 ^ 970 \<and> avg_doc_len \<noteq> 0 \<and> ?den t \<noteq> 0"
  proof (intro ballI allI impI)
    fix t idf assume "t \<in> set vocab" and "map_of idf_document t = Some idf"
    then have "t \<in> set vocab \<union> set document" and "map_of idf_document t \<noteq> None"
      by simp_all
    with assms(5) show "\<bar>doc_len\<bar> < 2 ^ 1024 - 2 ^ 970 \<and> avg_doc_len \<noteq> 0 \<and> ?den t \<noteq> 0"
      by blast
  qed
  from calculate_bm25_with_cutoff_defined [OF assms(1-4) pre]
  obtain cutoff where part: "calculate_bm25_with_cutoff vocab document idf_document alpha k1 b
        (Some avg_doc_len) (Some doc_len) = Inr (Some cutoff)"
    and keys: "set (map fst cutoff) = {t \<in> set vocab. ?q t}"
    and look: "\<forall>t \<in> set vocab. \<forall>idf. map_of idf_document t = Some idf \<longrightarrow> alpha \<le> idf \<longrightarrow>
               map_of cutoff t = Some (idf * (real (count_list document t) * (k1 + 1)) / ?den t)"
    by blast
  have agree: "\<forall>t v. map_of cutoff t = Some v \<longrightarrow> map_of bm25 t = Some v"
  proof (intro allI impI)
    fix t v assume v: "map_of cutoff t = Some v"
    from map_of_SomeD [OF v] have "t \<in> fst ` set cutoff"
      by force
    then have "t \<in> set (map fst cutoff)"
      by simp
    then have mem: "t \<in> set vocab" and q: "?q t"
      unfolding keys by simp_all
    from q obtain idf where idf: "map_of idf_document t = Some idf" and ge: "alpha \<le> idf"
      by blast
    from look mem idf ge
    have "map_of cutoff t = Some (idf * (real (count_list document t) * (k1 + 1)) / ?den t)"
      by blast
    with v have "v = idf * (real (count_list document t) * (k1 + 1)) / ?den t"
      by simp
    moreover from look_full mem idf
    have "map_of bm25 t = Some (idf * (real (count_list document t) * (k1 + 1)) / ?den t)"
      by simp
    ultimately show "map_of bm25 t = Some v" by simp
  qed
  show ?thesis
    by (intro exI [of _ cutoff] exI [of _ bm25] conjI part full agree)
qed

subsection \<open>save_index and load_index\<close>











end
